theory Spec2Isabelle
  imports Complex_Main "HOL-Library.AList"
begin

section \<open>Python strings\<close>

text \<open>
  A Python \<open>str\<close> is modelled as a \<open>string\<close>: a list of characters whose code points
  are below 256 (ASCII and Latin-1), which covers the embedded keyword table. The string
  methods the program calls are modelled on these code points.
\<close>

text \<open>\<open>str.isspace\<close> on one character: the white space \<open>str.strip()\<close> removes.\<close>

definition isspace :: "char \<Rightarrow> bool" where
  "isspace c =
     (let n = (of_char c :: nat)
      in (9 \<le> n \<and> n \<le> 13) \<or> (28 \<le> n \<and> n \<le> 32) \<or> n = 133 \<or> n = 160)"

text \<open>The characters \<open>str.lower()\<close> changes: A-Z, and the Latin-1 capitals.\<close>

definition isupper :: "char \<Rightarrow> bool" where
  "isupper c =
     (let n = (of_char c :: nat)
      in (65 \<le> n \<and> n \<le> 90) \<or> (192 \<le> n \<and> n \<le> 222 \<and> n \<noteq> 215))"

text \<open>
  The lower-case letter of a capital is 32 code points above it; no capital has the bit
  of value 32 set, so adding 32 sets that bit (lemma \<open>lower_char_bits\<close>).
\<close>

fun set_bit5 :: "char \<Rightarrow> char" where
  "set_bit5 (Char b0 b1 b2 b3 b4 b5 b6 b7) = Char b0 b1 b2 b3 b4 True b6 b7"

definition lower_char :: "char \<Rightarrow> char" where
  "lower_char c = (if isupper c then set_bit5 c else c)"

text \<open>\<open>s.lower()\<close>\<close>

definition lower :: "string \<Rightarrow> string" where
  "lower s = map lower_char s"

text \<open>\<open>s.strip()\<close>\<close>

definition strip :: "string \<Rightarrow> string" where
  "strip s = rev (dropWhile isspace (rev (dropWhile isspace s)))"

text \<open>\<open>s.split(sep)\<close> for a separator of one character: never an empty list.\<close>

fun split_on :: "char \<Rightarrow> string \<Rightarrow> string list" where
  "split_on sep [] = [[]]"
| "split_on sep (c # cs) =
     (if c = sep then [] # split_on sep cs
      else (case split_on sep cs of [] \<Rightarrow> [[c]] | p # ps \<Rightarrow> (c # p) # ps))"

text \<open>\<open>sep.join(parts)\<close>, used to say what a split is.\<close>

fun str_join :: "char \<Rightarrow> string list \<Rightarrow> string" where
  "str_join sep [] = []"
| "str_join sep [p] = p"
| "str_join sep (p # q # ps) = p @ sep # str_join sep (q # ps)"



section \<open>Alternative spellings\<close>

text \<open>
  \<^verbatim>\<open>
  def word_alternatives(words) -> List[str]:
    if '/' in words:
      return words.split('/')
    return [words,]
  \<close>
\<close>

definition word_alternatives :: "string \<Rightarrow> string list" where
  "word_alternatives words =
     (if CHR ''/'' \<in> set words then split_on CHR ''/'' words else [words])"

section \<open>Flattening a recognition response\<close>

text \<open>The exceptions of the program that the claims are about.\<close>

datatype py_error = ValueError | UnboundLocalError | AttributeError | RecognitionError

text \<open>
  The response of the speech service, as far as the program reads it. An offset is a
  \<open>datetime.timedelta\<close>; \<open>total_seconds()\<close> is its length in seconds, taken here as
  the exact quotient (the rounding to a float is left out). \<open>alternatives\<close> is \<open>None\<close>
  for a result on which reading the field raises.
\<close>

record timedelta =
  days :: int
  seconds :: int
  microseconds :: int

definition total_seconds :: "timedelta \<Rightarrow> real" where
  "total_seconds td =
     real_of_int ((days td * 86400 + seconds td) * 1000000 + microseconds td) / 1000000"

record WordInfo =
  word_text :: string
  start_offset :: timedelta
  end_offset :: timedelta

record SpeechRecognitionAlternative =
  transcript :: string
  words :: "WordInfo list"

record SpeechRecognitionResult =
  alternatives :: "SpeechRecognitionAlternative list option"

record RecognizeResponse =
  results :: "SpeechRecognitionResult list"

text \<open>
  \<^verbatim>\<open>
  @dataclass
  class RecogResult:
    word: str
    start_time: float
    end_time: float

  def parse_time(time_proto) -> float:
    return time_proto.total_seconds()
  \<close>
\<close>

datatype RecogResult = RecogResult (word: string) (start_time: real) (end_time: real)

definition parse_time :: "timedelta \<Rightarrow> real" where
  "parse_time time_proto = total_seconds time_proto"

text \<open>
  \<^verbatim>\<open>
  def parse_transcript(response):
    words = []
    for a_result in response.results:
      try:
        ok = len(a_result.alternatives) > 0
      except:
        ok = False
      if not ok:
        continue
      for word in a_result.alternatives[0].words:
        start_time = parse_time(word.start_offset)
        end_time = parse_time(word.end_offset)
        recog_result = RecogResult(word.word.lower(), start_time, end_time)
        words.append(recog_result)
      words.append(RecogResult('.', end_time, end_time))
    return words
  \<close>
  The state of the loops is the list \<open>words\<close> and the local variable \<open>end_time\<close>, which
  has no value (\<open>None\<close>) until the inner loop assigns it and keeps its value from one
  result to the next. Reading it without a value raises \<open>UnboundLocalError\<close>.
\<close>

type_synonym parse_state = "RecogResult list \<times> real option"

definition alternatives_ok :: "SpeechRecognitionResult \<Rightarrow> bool" where
  "alternatives_ok a_result =
     (case alternatives a_result of None \<Rightarrow> False | Some alts \<Rightarrow> length alts > 0)"

fun words_loop :: "WordInfo list \<Rightarrow> parse_state \<Rightarrow> parse_state" where
  "words_loop [] st = st"
| "words_loop (w # ws) (acc, et) =
     words_loop ws
       (acc @ [RecogResult (lower (word_text w)) (parse_time (start_offset w))
                 (parse_time (end_offset w))],
        Some (parse_time (end_offset w)))"

fun results_loop :: "SpeechRecognitionResult list \<Rightarrow> parse_state \<Rightarrow> py_error + parse_state" where
  "results_loop [] st = Inr st"
| "results_loop (a_result # rest) st =
     (if \<not> alternatives_ok a_result then results_loop rest st
      else (case alternatives a_result of
              Some (alt # _) \<Rightarrow>
                (case words_loop (words alt) st of
                   (acc, None) \<Rightarrow> Inl UnboundLocalError
                 | (acc, Some t) \<Rightarrow>
                     results_loop rest (acc @ [RecogResult ''.'' t t], Some t))
            | _ \<Rightarrow> results_loop rest st))"

definition parse_transcript :: "RecognizeResponse \<Rightarrow> py_error + RecogResult list" where
  "parse_transcript response =
     (case results_loop (results response) ([], None) of
        Inl e \<Rightarrow> Inl e
      | Inr (acc, et) \<Rightarrow> Inr acc)"

text \<open>The entry that the inner loop appends for one word of the response.\<close>

definition flat_word :: "WordInfo \<Rightarrow> RecogResult" where
  "flat_word w =
     RecogResult (lower (word_text w)) (total_seconds (start_offset w))
       (total_seconds (end_offset w))"

section \<open>The keyword table\<close>

text \<open>
  \<open>int(s)\<close> on a string, base 10: white space around the number is dropped, then an
  optional sign and decimal digits, where one underscore may stand between two digits.
  Anything else raises \<open>ValueError\<close>.
\<close>

definition isdigit :: "char \<Rightarrow> bool" where
  "isdigit c = (let n = (of_char c :: nat) in 48 \<le> n \<and> n \<le> 57)"

definition digit_value :: "char \<Rightarrow> int" where
  "digit_value c = int (of_char c) - 48"

fun digits_tail :: "int \<Rightarrow> string \<Rightarrow> int option" where
  "digits_tail acc [] = Some acc"
| "digits_tail acc [c] = (if isdigit c then Some (10 * acc + digit_value c) else None)"
| "digits_tail acc (c # d # cs) =
     (if isdigit c then digits_tail (10 * acc + digit_value c) (d # cs)
      else if c = CHR ''_'' \<and> isdigit d then digits_tail (10 * acc + digit_value d) cs
      else None)"

definition digits_value :: "string \<Rightarrow> int option" where
  "digits_value s =
     (case s of [] \<Rightarrow> None
      | c # cs \<Rightarrow> if isdigit c then digits_tail (digit_value c) cs else None)"

definition py_int :: "string \<Rightarrow> py_error + int" where
  "py_int s =
     (case strip s of
        [] \<Rightarrow> Inl ValueError
      | c # cs \<Rightarrow>
          (case (if c = CHR ''-'' then map_option uminus (digits_value cs)
                 else if c = CHR ''+'' then digits_value cs
                 else digits_value (c # cs)) of
             None \<Rightarrow> Inl ValueError
           | Some n \<Rightarrow> Inr n))"

text \<open>\<open>str(n)\<close> for an integer, as an f-string prints it.\<close>

fun str_nat :: "nat \<Rightarrow> string" where
  "str_nat n =
     (if n < 10 then [''0123456789'' ! n]
      else str_nat (n div 10) @ [''0123456789'' ! (n mod 10)])"

definition str_int :: "int \<Rightarrow> string" where
  "str_int i = (if i < 0 then CHR ''-'' # str_nat (nat (- i)) else str_nat (nat i))"

text \<open>
  The embedded table: the triple-quoted literal of the source is its 85 lines (the first
  and the last are empty) joined by newlines, and \<open>key_word_list\<close> is that text
  split at the newlines.
\<close>

definition key_word_lines :: "string list" where
  "key_word_lines =
     [
      '''',
      ''L 0 S 0  white silk jacket any shoes'',
      ''L 0 S 1  child crawled into dense grass'',
      ''L 0 S 2  Footprints show/showed path took beach'',
      ''L 0 S 3  event near edge fresh air'',
      ''L 0 S 4  band Steel 3/three inches/in wide'',
      ''L 0 S 5  weight package seen high scale'',
      '''',
      ''L 1 S 0  tear/Tara thin sheet yellow pad'',
      ''L 1 S 1  cruise Waters Sleek yacht fun'',
      ''L 1 S 2  streak color down left Edge'',
      ''L 1 S 3  done before boy/boys see it'',
      ''L 1 S 4  Crouch before jump miss mark'',
      ''L 1 S 5  square peg settle round hole'',
      '''',
      ''L 2 S 0  pitch straw through door stable'',
      ''L 2 S 1  sink thing which pile/piled dishes'',
      ''L 2 S 2  post no bills office wall'',
      ''L 2 S 3  dimes showered/shower down all sides'',
      ''L 2 S 4  pick card slip under pack/Pact'',
      ''L 2 S 5  store jammed before sale start'',
      '''',
      ''L 3 S 0  sense smell better than touch'',
      ''L 3 S 1  picked up dice second roll'',
      ''L 3 S 2  drop ashes worn/Warren Old rug'',
      ''L 3 S 3  couch cover Hall drapes blue'',
      ''L 3 S 4  stems Tall Glasses cracked broke'',
      ''L 3 S 5  cleats sank/sink deeply soft turf'',
      '''',
      ''L 4 S 0  have better than wait Hope'',
      ''L 4 S 1  screen before fire kept Sparks'',
      ''L 4 S 2  thick glasses helped/help read print/prints'',
      ''L 4 S 3  chair looked strong no bottom'',
      ''L 4 S 4  told wild Tales/tails frighten him'',
      ''L 4 S 5  force equal would move Earth'',
      '''',
      ''L 5 S 0  leaf drifts along slow spin'',
      ''L 5 S 1  pencil cut sharp both ends'',
      ''L 5 S 2  down road way grain farmer'',
      ''L 5 S 3  best method fix place clips'',
      ''L 5 S 4  if Mumble your speech lost'',
      ''L 5 S 5  toad Frog hard tell apart'',
      '''',
      ''L 6 S 0  kite dipped swayed/suede stayed aloft/loft'',
      ''L 6 S 1  beatle/beetle drowned hot June/Tunes sun/son'',
      ''L 6 S 2  theft Pearl pin Kept Secret'',
      ''L 6 S 3  wide grin earned many friends'',
      ''L 6 S 4  hurdle pit aid long Pole'',
      ''L 6 S 5  Peep/keep under tent see Clown'',
      '''',
      ''L 7 S 0  sun came light Eastern sky'',
      ''L 7 S 1  stale smell old beer lingers'',
      ''L 7 S 2  desk firm on shaky floor'',
      ''L 7 S 3  list names carved around base'',
      ''L 7 S 4  news struct/struck out Restless Minds'',
      ''L 7 S 5  Sand drifts/Drift over sill/sale house'',
      '''',
      ''L 8 S 0  take shelter tent keep still'',
      ''L 8 S 1  Little Tales/tails they tell false'',
      ''L 8 S 2  press pedal with left foot'',
      ''L 8 S 3  black trunk fell from Landing/landings'',
      ''L 8 S 4  cheap clothes flashy/flash don't last'',
      ''L 8 S 5  night alarm roused/roust deep sleep'',
      '''',
      ''L 9 S 0  dots light betray/betrayed black cat'',
      ''L 9 S 1  put chart mantle Tack down'',
      ''L 9 S 2  steady drip worse drenching rain'',
      ''L 9 S 3  flat pack less luggage space'',
      ''L 9 S 4  gloss/glass top made unfit read'',
      ''L 9 S 5  Seven Seals stamped great sheets'',
      '''',
      ''L10 S 0  marsh freeze when cold enough'',
      ''L10 S 1  gray mare walked before colt/cold'',
      ''L10 S 2  bottles hold four/for kinds rum'',
      ''L10 S 3  wheeled/wheled bike past winding road'',
      ''L10 S 4  throw used paper cup plate'',
      ''L10 S 5  wall phone ring loud often'',
      '''',
      ''L11 S 0  hinge door creaked old age'',
      ''L11 S 1  bright lanterns Gay dark lawn'',
      ''L11 S 2  offered proof  form large chart'',
      ''L11 S 3  their eyelids droop/drop want sleep'',
      ''L11 S 4  many ways do these things'',
      ''L11 S 5  we like see clear weather'',
      '''']"

definition key_word_text :: string where
  "key_word_text = str_join CHR 0x0A key_word_lines"

definition key_word_list :: "string list" where
  "key_word_list = split_on CHR 0x0A key_word_text"

text \<open>
  \<^verbatim>\<open>
  def ingest_spin_keyword_lists(key_word_list):
    all_keyword_dict = {}
    for line in key_word_list:
      line = line.strip().lower()
      if not line: continue
      list_number = int(line[1:3])
      sentence_number = int(line[5:7])
      key_words = line[7:].split(' ')
      key_words = [w for w in key_words if w]
      key_list = [word_alternatives(w) for w in key_words]
      if len(key_list) != 5:
        print(f'Have too many words in L{list_number} S{sentence_number}:',
              key_list)
      all_keyword_dict[list_number, sentence_number] = key_list
    return all_keyword_dict
  \<close>
  The dictionary is an association list in insertion order; a store to a key that is
  present replaces its value in place, as in Python. What \<open>print\<close> writes is kept as
  the list of its calls, each the formatted message and the list printed after it. The
  state of the loop is the dictionary and that list.
\<close>

type_synonym key_list = "string list list"

type_synonym keyword_dict = "((int \<times> int) \<times> key_list) list"

type_synonym ingest_state = "keyword_dict \<times> (string \<times> key_list) list"

definition key_words_of :: "string \<Rightarrow> string list" where
  "key_words_of line = filter (\<lambda>w. w \<noteq> []) (split_on CHR '' '' (drop 7 line))"

definition warning_text :: "int \<Rightarrow> int \<Rightarrow> string" where
  "warning_text list_number sentence_number =
     ''Have too many words in L'' @ str_int list_number @ '' S'' @ str_int sentence_number
       @ '':''"

text \<open>
  The first half of the loop body: what a line holds. \<open>None\<close> for a line that is empty
  once stripped (the loop goes on to the next line), otherwise the error of an \<open>int\<close>
  or the key and the \<open>key_list\<close> of the line.
\<close>

definition line_entry :: "string \<Rightarrow> (py_error + (int \<times> int) \<times> key_list) option" where
  "line_entry raw =
     (let line = lower (strip raw)
      in if line = [] then None
         else Some (case py_int (take 2 (drop 1 line)) of
                      Inl e \<Rightarrow> Inl e
                    | Inr list_number \<Rightarrow>
                        (case py_int (take 2 (drop 5 line)) of
                           Inl e \<Rightarrow> Inl e
                         | Inr sentence_number \<Rightarrow>
                             Inr ((list_number, sentence_number),
                                  map word_alternatives (key_words_of line)))))"

text \<open>The second half: the warning when the count is not 5, and the store.\<close>

definition ingest_line :: "string \<Rightarrow> ingest_state \<Rightarrow> py_error + ingest_state" where
  "ingest_line raw st =
     (case line_entry raw of
        None \<Rightarrow> Inr st
      | Some (Inl e) \<Rightarrow> Inl e
      | Some (Inr ((list_number, sentence_number), key_list)) \<Rightarrow>
          Inr (AList.update (list_number, sentence_number) key_list (fst st),
               if length key_list \<noteq> 5
               then snd st @ [(warning_text list_number sentence_number, key_list)]
               else snd st))"

fun ingest_loop :: "string list \<Rightarrow> ingest_state \<Rightarrow> py_error + ingest_state" where
  "ingest_loop [] st = Inr st"
| "ingest_loop (line # rest) st =
     (case ingest_line line st of Inl e \<Rightarrow> Inl e | Inr st' \<Rightarrow> ingest_loop rest st')"

definition ingest_spin_keyword_lists :: "string list \<Rightarrow> py_error + ingest_state" where
  "ingest_spin_keyword_lists lines = ingest_loop lines ([], [])"

text \<open>
  The form of a line of the table, used to state the claims: \<open>L\<close>, the list number
  right-aligned in two columns, a space, \<open>S\<close>, the sentence number in two columns, then
  every keyword token after a run of one or more spaces (\<open>g\<close> spaces more than one). A
  keyword token is not empty and holds no white space.
\<close>

definition digit_char :: "nat \<Rightarrow> char" where
  "digit_char n = ''0123456789'' ! n"

definition field2 :: "nat \<Rightarrow> string" where
  "field2 n =
     (if n < 10 then [CHR '' '', digit_char n]
      else [digit_char (n div 10), digit_char (n mod 10)])"

definition spaced :: "(nat \<times> string) list \<Rightarrow> string" where
  "spaced toks = concat (map (\<lambda>(g, t). replicate (Suc g) CHR '' '' @ t) toks)"

definition table_line :: "nat \<Rightarrow> nat \<Rightarrow> (nat \<times> string) list \<Rightarrow> string" where
  "table_line l s toks = ''L'' @ field2 l @ '' S'' @ field2 s @ spaced toks"

definition keyword_token :: "string \<Rightarrow> bool" where
  "keyword_token t = (t \<noteq> [] \<and> list_all (\<lambda>c. \<not> isspace c) t)"

section \<open>Recognising a batch of files\<close>








section \<open>Properties of the string operations\<close>

lemma lower_char_bits:
  "\<not> isupper (lower_char (Char b0 b1 b2 b3 b4 b5 b6 b7)) \<and>
   (isupper (Char b0 b1 b2 b3 b4 b5 b6 b7) \<longrightarrow>
     (of_char (lower_char (Char b0 b1 b2 b3 b4 b5 b6 b7)) :: nat) =
       of_char (Char b0 b1 b2 b3 b4 b5 b6 b7) + 32)"
  by (cases b0; cases b1; cases b2; cases b3; cases b4; cases b5; cases b6; cases b7;
      simp add: lower_char_def isupper_def)

lemma not_isupper_lower_char: "\<not> isupper (lower_char c)"
  by (cases c) (simp only: lower_char_bits not_False_eq_True)

lemma lower_char_idem: "lower_char (lower_char c) = lower_char c"
  using not_isupper_lower_char [of c] by (simp add: lower_char_def)

lemma split_on_not_Nil: "split_on sep s \<noteq> []"
  by (induction s) (auto split: list.splits)

lemma length_split_on: "length (split_on sep s) = count_list s sep + 1"
proof (induction s)
  case Nil
  show ?case by simp
next
  case (Cons c cs)
  obtain p ps where ps: "split_on sep cs = p # ps"
    using split_on_not_Nil [of sep cs] by (cases "split_on sep cs") auto
  with Cons show ?case by auto
qed

lemma str_join_split_on: "str_join sep (split_on sep s) = s"
proof (induction s)
  case Nil
  show ?case by simp
next
  case (Cons c cs)
  obtain p ps where ps: "split_on sep cs = p # ps"
    using split_on_not_Nil [of sep cs] by (cases "split_on sep cs") auto
  show ?case
  proof (cases "c = sep")
    case True
    with Cons ps show ?thesis by simp
  next
    case False
    with Cons ps show ?thesis by (cases ps) auto
  qed
qed

lemma split_on_pieces: "p \<in> set (split_on sep s) \<Longrightarrow> sep \<notin> set p"
proof (induction s arbitrary: p)
  case Nil
  then show ?case by simp
next
  case (Cons c cs)
  obtain q qs where qs: "split_on sep cs = q # qs"
    using split_on_not_Nil [of sep cs] by (cases "split_on sep cs") auto
  have q: "sep \<notin> set q" and rest: "\<And>r. r \<in> set qs \<Longrightarrow> sep \<notin> set r"
    using Cons.IH qs by auto
  show ?case
  proof (cases "c = sep")
    case True
    with Cons.prems qs q rest show ?thesis by auto
  next
    case False
    with Cons.prems qs q rest show ?thesis by auto
  qed
qed

section \<open>Claims about word_alternatives\<close>

text \<open>
  C3: \<open>word_alternatives\<close> is a function of its argument alone; its result is the split
  of the argument at every \<open>/\<close>: joining the pieces with \<open>/\<close> gives the argument back,
  character for character (so case is kept), and no piece contains a \<open>/\<close>. An argument
  without \<open>/\<close> comes back as the only element. \<open>word_alternatives("tear/Tara")\<close> is
  \<open>["tear", "Tara"]\<close> and \<open>word_alternatives("jacket")\<close> is \<open>["jacket"]\<close>.
\<close>

theorem word_alternatives_splits:
  "str_join CHR ''/'' (word_alternatives token) = token
   \<and> (\<forall>p \<in> set (word_alternatives token). CHR ''/'' \<notin> set p)
   \<and> (CHR ''/'' \<notin> set token \<longrightarrow> word_alternatives token = [token])
   \<and> word_alternatives ''tear/Tara'' = [''tear'', ''Tara'']
   \<and> word_alternatives ''jacket'' = [''jacket'']"
proof -
  have "str_join CHR ''/'' (word_alternatives token) = token"
    by (simp add: word_alternatives_def str_join_split_on)
  moreover have "\<forall>p \<in> set (word_alternatives token). CHR ''/'' \<notin> set p"
    using split_on_pieces [of _ "CHR ''/''" token] by (auto simp: word_alternatives_def)
  moreover have "CHR ''/'' \<notin> set token \<longrightarrow> word_alternatives token = [token]"
    by (simp add: word_alternatives_def)
  moreover have "word_alternatives ''tear/Tara'' = [''tear'', ''Tara'']"
    by (simp add: word_alternatives_def)
  moreover have "word_alternatives ''jacket'' = [''jacket'']"
    by (simp add: word_alternatives_def)
  ultimately show ?thesis by blast
qed

theorem word_alternatives_splits_witness:
  "str_join CHR ''/'' (word_alternatives ''3/three'') = ''3/three''
   \<and> ''three'' \<in> set (word_alternatives ''3/three'')
   \<and> CHR ''/'' \<notin> set ''three''
   \<and> CHR ''/'' \<notin> set ''pad'' \<and> word_alternatives ''pad'' = [''pad'']"
proof -
  have mem: "''three'' \<in> set (word_alternatives ''3/three'')"
    by (simp add: word_alternatives_def)
  have no: "CHR ''/'' \<notin> set ''pad''" by simp
  from word_alternatives_splits [of "''3/three''"] mem
  have "str_join CHR ''/'' (word_alternatives ''3/three'') = ''3/three''"
    and "CHR ''/'' \<notin> set ''three''" by blast+
  moreover from word_alternatives_splits [of "''pad''"] no
  have "word_alternatives ''pad'' = [''pad'']" by blast
  ultimately show ?thesis using mem no by blast
qed

text \<open>
  C10: a string with \<open>n \<ge> 1\<close> occurrences of \<open>/\<close> gives exactly \<open>n + 1\<close> spellings, and
  some of them may be empty: \<open>word_alternatives("word/")\<close> is \<open>["word", ""]\<close>, a leading
  slash gives an empty first spelling and two adjacent slashes an empty middle one.
\<close>

theorem word_alternatives_count:
  "1 \<le> count_list token CHR ''/'' \<Longrightarrow>
     length (word_alternatives token) = count_list token CHR ''/'' + 1
     \<and> word_alternatives ''word/'' = [''word'', '''']
     \<and> word_alternatives ''/word'' = ['''', ''word'']
     \<and> word_alternatives ''a//b'' = [''a'', '''', ''b'']"
proof -
  assume n: "1 \<le> count_list token CHR ''/''"
  have "CHR ''/'' \<in> set token"
  proof (rule ccontr)
    assume "CHR ''/'' \<notin> set token"
    then have "count_list token CHR ''/'' = 0" by (simp add: count_list_0_iff)
    with n show False by simp
  qed
  then have "length (word_alternatives token) = count_list token CHR ''/'' + 1"
    by (simp add: word_alternatives_def length_split_on)
  moreover have "word_alternatives ''word/'' = [''word'', '''']"
    by (simp add: word_alternatives_def)
  moreover have "word_alternatives ''/word'' = ['''', ''word'']"
    by (simp add: word_alternatives_def)
  moreover have "word_alternatives ''a//b'' = [''a'', '''', ''b'']"
    by (simp add: word_alternatives_def)
  ultimately show ?thesis by blast
qed

theorem word_alternatives_count_witness:
  "1 \<le> count_list ''3/three/iii'' CHR ''/''
   \<and> length (word_alternatives ''3/three/iii'') = 3"
proof -
  have n: "1 \<le> count_list ''3/three/iii'' CHR ''/''" by simp
  from word_alternatives_count [OF n] show ?thesis by simp
qed

section \<open>Claims about parse_transcript\<close>

lemma words_loop_eq:
  "words_loop ws (acc, et) =
     (acc @ map flat_word ws,
      if ws = [] then et else Some (total_seconds (end_offset (last ws))))"
  by (induction ws arbitrary: acc et) (auto simp: flat_word_def parse_time_def)

lemma results_loop_skip:
  "\<not> alternatives_ok r \<Longrightarrow> results_loop (r # rest) st = results_loop rest st"
  by simp

lemma results_loop_first:
  "alternatives r = Some (alt # alts) \<Longrightarrow>
   results_loop (r # rest) (acc, et) =
     (if words alt = [] then
        (case et of None \<Rightarrow> Inl UnboundLocalError
         | Some t \<Rightarrow> results_loop rest (acc @ [RecogResult ''.'' t t], Some t))
      else results_loop rest
             (acc @ map flat_word (words alt) @
                [RecogResult ''.'' (total_seconds (end_offset (last (words alt))))
                   (total_seconds (end_offset (last (words alt))))],
              Some (total_seconds (end_offset (last (words alt))))))"
  by (auto simp: alternatives_ok_def words_loop_eq split: option.splits)

lemma results_loop_append:
  "results_loop (xs @ ys) st =
     (case results_loop xs st of Inl e \<Rightarrow> Inl e | Inr st' \<Rightarrow> results_loop ys st')"
proof (induction xs arbitrary: st)
  case Nil
  show ?case by simp
next
  case (Cons r xs)
  show ?case
  proof (cases "alternatives_ok r")
    case False
    then show ?thesis using Cons.IH by simp
  next
    case True
    then obtain alt alts where a: "alternatives r = Some (alt # alts)"
      by (cases "alternatives r") (auto simp: alternatives_ok_def neq_Nil_conv)
    obtain acc et where st: "st = (acc, et)" by (cases st)
    show ?thesis
      unfolding st append_Cons results_loop_first [OF a]
      using Cons.IH by (auto split: option.splits)
  qed
qed

lemma results_loop_all_skipped:
  "list_all (\<lambda>r. \<not> alternatives_ok r) xs \<Longrightarrow> results_loop xs st = Inr st"
  by (induction xs) auto

text \<open>
  C4: a response of two results, each with one alternative of two timed words, gives
  six entries in the order of the results: the two words of a result (text in lower
  case, offsets in seconds), then an entry \<open>"."\<close> whose start and end are the end of
  the second word.
\<close>

theorem parse_transcript_two_results:
  "parse_transcript
     \<lparr>results =
        [\<lparr>alternatives = Some [\<lparr>transcript = t1, words = [w1, w2]\<rparr>]\<rparr>,
         \<lparr>alternatives = Some [\<lparr>transcript = t2, words = [w3, w4]\<rparr>]\<rparr>]\<rparr> =
   Inr [RecogResult (lower (word_text w1)) (total_seconds (start_offset w1))
          (total_seconds (end_offset w1)),
        RecogResult (lower (word_text w2)) (total_seconds (start_offset w2))
          (total_seconds (end_offset w2)),
        RecogResult ''.'' (total_seconds (end_offset w2)) (total_seconds (end_offset w2)),
        RecogResult (lower (word_text w3)) (total_seconds (start_offset w3))
          (total_seconds (end_offset w3)),
        RecogResult (lower (word_text w4)) (total_seconds (start_offset w4))
          (total_seconds (end_offset w4)),
        RecogResult ''.'' (total_seconds (end_offset w4)) (total_seconds (end_offset w4))]"
  by (simp add: parse_transcript_def alternatives_ok_def parse_time_def)

theorem parse_transcript_two_results_witness:
  "parse_transcript
     \<lparr>results =
        [\<lparr>alternatives = Some [\<lparr>transcript = ''White silk'', words =
           [\<lparr>word_text = ''White'',
             start_offset = \<lparr>days = 0, seconds = 1, microseconds = 500000\<rparr>,
             end_offset = \<lparr>days = 0, seconds = 2, microseconds = 0\<rparr>\<rparr>,
            \<lparr>word_text = ''silk'',
             start_offset = \<lparr>days = 0, seconds = 2, microseconds = 0\<rparr>,
             end_offset = \<lparr>days = 0, seconds = 2, microseconds = 250000\<rparr>\<rparr>]\<rparr>]\<rparr>,
         \<lparr>alternatives = Some [\<lparr>transcript = ''the Child'', words =
           [\<lparr>word_text = ''the'',
             start_offset = \<lparr>days = 0, seconds = 5, microseconds = 0\<rparr>,
             end_offset = \<lparr>days = 0, seconds = 6, microseconds = 0\<rparr>\<rparr>,
            \<lparr>word_text = ''Child'',
             start_offset = \<lparr>days = 0, seconds = 6, microseconds = 0\<rparr>,
             end_offset = \<lparr>days = 0, seconds = 61, microseconds = 0\<rparr>\<rparr>]\<rparr>]\<rparr>]\<rparr> =
   Inr [RecogResult ''white'' (3 / 2) 2, RecogResult ''silk'' 2 (9 / 4),
        RecogResult ''.'' (9 / 4) (9 / 4),
        RecogResult ''the'' 5 6, RecogResult ''child'' 6 61, RecogResult ''.'' 61 61]"
  unfolding parse_transcript_two_results
  by (simp add: total_seconds_def lower_def lower_char_def isupper_def)

text \<open>
  C5: a result whose alternatives are empty or absent is skipped: the response gives
  what it gives without that result, so the result adds no word and no \<open>"."\<close> entry,
  and no exception comes from it.
\<close>

theorem parse_transcript_skips_empty:
  "alternatives seg = None \<or> alternatives seg = Some [] \<Longrightarrow>
   parse_transcript \<lparr>results = pre @ seg # post\<rparr> = parse_transcript \<lparr>results = pre @ post\<rparr>"
proof -
  assume "alternatives seg = None \<or> alternatives seg = Some []"
  then have skip: "\<not> alternatives_ok seg" by (auto simp: alternatives_ok_def)
  have "results_loop (pre @ seg # post) st = results_loop (pre @ post) st" for st
    using skip by (simp add: results_loop_append split: sum.splits)
  then show ?thesis by (simp add: parse_transcript_def)
qed

theorem parse_transcript_skips_empty_witness:
  "alternatives \<lparr>alternatives = Some []\<rparr> = Some []
   \<and> parse_transcript
       \<lparr>results =
          [\<lparr>alternatives = Some [\<lparr>transcript = ''any'', words =
             [\<lparr>word_text = ''Any'',
               start_offset = \<lparr>days = 0, seconds = 1, microseconds = 0\<rparr>,
               end_offset = \<lparr>days = 0, seconds = 2, microseconds = 0\<rparr>\<rparr>]\<rparr>]\<rparr>,
           \<lparr>alternatives = Some []\<rparr>,
           \<lparr>alternatives = None\<rparr>]\<rparr> =
     Inr [RecogResult ''any'' 1 2, RecogResult ''.'' 2 2]"
proof -
  have h: "alternatives \<lparr>alternatives = Some []\<rparr> = None
           \<or> alternatives \<lparr>alternatives = Some []\<rparr> = Some []" by simp
  have e: "parse_transcript
       \<lparr>results =
          [\<lparr>alternatives = Some [\<lparr>transcript = ''any'', words =
             [\<lparr>word_text = ''Any'',
               start_offset = \<lparr>days = 0, seconds = 1, microseconds = 0\<rparr>,
               end_offset = \<lparr>days = 0, seconds = 2, microseconds = 0\<rparr>\<rparr>]\<rparr>]\<rparr>]
          @ [\<lparr>alternatives = None\<rparr>]\<rparr> =
     Inr [RecogResult ''any'' 1 2, RecogResult ''.'' 2 2]"
    by (simp add: parse_transcript_def alternatives_ok_def parse_time_def total_seconds_def
        lower_def lower_char_def isupper_def)
  from parse_transcript_skips_empty [OF h,
      of "[\<lparr>alternatives = Some [\<lparr>transcript = ''any'', words =
             [\<lparr>word_text = ''Any'',
               start_offset = \<lparr>days = 0, seconds = 1, microseconds = 0\<rparr>,
               end_offset = \<lparr>days = 0, seconds = 2, microseconds = 0\<rparr>\<rparr>]\<rparr>]\<rparr>]"
         "[\<lparr>alternatives = None\<rparr>]"] e
  show ?thesis by simp
qed

text \<open>
  C9: a result with alternatives whose first alternative has no word still gets its
  \<open>"."\<close> entry. When every result before it was skipped, \<open>end_time\<close> has no value and
  the function raises. When it follows a result with words (skipped results between
  them or not), its entry carries the end of the last word of that earlier result, the
  same time as the entry before it.
\<close>

theorem parse_transcript_wordless_result:
  "(list_all (\<lambda>r. \<not> alternatives_ok r) pre \<and> alternatives seg = Some (alt # alts)
      \<and> words alt = []
    \<longrightarrow> parse_transcript \<lparr>results = pre @ seg # post\<rparr> = Inl UnboundLocalError)
   \<and> (alternatives segA = Some (altA # altsA) \<and> words altA \<noteq> []
      \<and> list_all (\<lambda>r. \<not> alternatives_ok r) mid
      \<and> alternatives segB = Some (altB # altsB) \<and> words altB = []
      \<and> parse_transcript \<lparr>results = before @ [segA]\<rparr> = Inr out
    \<longrightarrow> parse_transcript \<lparr>results = before @ segA # mid @ [segB]\<rparr> =
          Inr (out @ [RecogResult ''.'' (total_seconds (end_offset (last (words altA))))
                        (total_seconds (end_offset (last (words altA))))])
        \<and> last out = RecogResult ''.'' (total_seconds (end_offset (last (words altA))))
                        (total_seconds (end_offset (last (words altA)))))"
proof -
  let ?t = "total_seconds (end_offset (last (words altA)))"
  have first: "parse_transcript \<lparr>results = pre @ seg # post\<rparr> = Inl UnboundLocalError"
    if h: "list_all (\<lambda>r. \<not> alternatives_ok r) pre \<and> alternatives seg = Some (alt # alts)
      \<and> words alt = []"
  proof -
    from h have "results_loop (pre @ seg # post) ([], None) = Inl UnboundLocalError"
      by (simp add: results_loop_append results_loop_all_skipped results_loop_first
          del: results_loop.simps(2))
    then show ?thesis by (simp add: parse_transcript_def)
  qed
  have later: "parse_transcript \<lparr>results = before @ segA # mid @ [segB]\<rparr> =
          Inr (out @ [RecogResult ''.'' ?t ?t])
        \<and> last out = RecogResult ''.'' ?t ?t"
    if h: "alternatives segA = Some (altA # altsA) \<and> words altA \<noteq> []
      \<and> list_all (\<lambda>r. \<not> alternatives_ok r) mid
      \<and> alternatives segB = Some (altB # altsB) \<and> words altB = []
      \<and> parse_transcript \<lparr>results = before @ [segA]\<rparr> = Inr out"
  proof -
    from h have a: "alternatives segA = Some (altA # altsA)" and wa: "words altA \<noteq> []"
      and mid: "list_all (\<lambda>r. \<not> alternatives_ok r) mid"
      and b: "alternatives segB = Some (altB # altsB)" and wb: "words altB = []"
      and out: "parse_transcript \<lparr>results = before @ [segA]\<rparr> = Inr out"
      by blast+
    from out obtain acc et where pre: "results_loop before ([], None) = Inr (acc, et)"
      by (auto simp: parse_transcript_def results_loop_append split: sum.splits)
    have stA: "results_loop (before @ [segA]) ([], None) =
        Inr (acc @ map flat_word (words altA) @ [RecogResult ''.'' ?t ?t], Some ?t)"
      using pre wa by (simp add: results_loop_append results_loop_first [OF a]
          del: results_loop.simps(2))
    with out have o: "out = acc @ map flat_word (words altA) @ [RecogResult ''.'' ?t ?t]"
      by (simp add: parse_transcript_def)
    have "results_loop ((before @ [segA]) @ mid @ [segB]) ([], None) =
        Inr (out @ [RecogResult ''.'' ?t ?t], Some ?t)"
      unfolding results_loop_append [of "before @ [segA]"] stA
      using mid wb o
      by (simp add: results_loop_append results_loop_all_skipped results_loop_first [OF b]
          del: results_loop.simps(2))
    then show ?thesis
      using o by (simp add: parse_transcript_def)
  qed
  from first later show ?thesis by blast
qed

theorem parse_transcript_wordless_result_witness:
  "parse_transcript
     \<lparr>results = [\<lparr>alternatives = None\<rparr>,
                 \<lparr>alternatives = Some [\<lparr>transcript = '''', words = []\<rparr>]\<rparr>]\<rparr> =
   Inl UnboundLocalError
   \<and> parse_transcript
     \<lparr>results =
        [\<lparr>alternatives = Some [\<lparr>transcript = ''any'', words =
           [\<lparr>word_text = ''Any'',
             start_offset = \<lparr>days = 0, seconds = 1, microseconds = 0\<rparr>,
             end_offset = \<lparr>days = 0, seconds = 2, microseconds = 0\<rparr>\<rparr>]\<rparr>]\<rparr>,
         \<lparr>alternatives = Some []\<rparr>,
         \<lparr>alternatives = Some [\<lparr>transcript = '''', words = []\<rparr>]\<rparr>]\<rparr> =
   Inr [RecogResult ''any'' 1 2, RecogResult ''.'' 2 2, RecogResult ''.'' 2 2]"
proof -
  let ?w = "\<lparr>word_text = ''Any'',
             start_offset = \<lparr>days = 0, seconds = 1, microseconds = 0\<rparr>,
             end_offset = \<lparr>days = 0, seconds = 2, microseconds = 0\<rparr>\<rparr>"
  let ?altA = "\<lparr>transcript = ''any'', words = [?w]\<rparr>"
  let ?altB = "\<lparr>transcript = '''', words = []\<rparr>"
  let ?segA = "\<lparr>alternatives = Some [?altA]\<rparr>"
  let ?segB = "\<lparr>alternatives = Some [?altB]\<rparr>"
  have h1: "list_all (\<lambda>r. \<not> alternatives_ok r) [\<lparr>alternatives = None\<rparr>]
      \<and> alternatives ?segB = Some (?altB # []) \<and> words ?altB = []"
    by (simp add: alternatives_ok_def)
  have h2: "alternatives ?segA = Some (?altA # []) \<and> words ?altA \<noteq> []
      \<and> list_all (\<lambda>r. \<not> alternatives_ok r) [\<lparr>alternatives = Some []\<rparr>]
      \<and> alternatives ?segB = Some (?altB # []) \<and> words ?altB = []
      \<and> parse_transcript \<lparr>results = [] @ [?segA]\<rparr> =
          Inr [RecogResult ''any'' 1 2, RecogResult ''.'' 2 2]"
    by (simp add: alternatives_ok_def parse_transcript_def parse_time_def total_seconds_def
        lower_def lower_char_def isupper_def)
  from parse_transcript_wordless_result
    [where pre = "[\<lparr>alternatives = None\<rparr>]" and seg = ?segB and alt = ?altB and alts = "[]"
       and post = "[]" and segA = ?segA and altA = ?altA and altsA = "[]"
       and mid = "[\<lparr>alternatives = Some []\<rparr>]" and segB = ?segB and altB = ?altB
       and altsB = "[]" and before = "[]"
       and out = "[RecogResult ''any'' 1 2, RecogResult ''.'' 2 2]"]
    h1 h2
  show ?thesis by (simp add: total_seconds_def)
qed

section \<open>Claims about recognize_all_spin\<close>












section \<open>Claims about ingest_spin_keyword_lists\<close>

lemma split_on_sep_free: "sep \<notin> set t \<Longrightarrow> split_on sep t = [t]"
  by (induction t) auto

lemma split_on_append_sep:
  "sep \<notin> set t \<Longrightarrow> split_on sep (t @ sep # r) = t # split_on sep r"
  by (induction t) auto

lemma split_on_str_join:
  "ls \<noteq> [] \<Longrightarrow> list_all (\<lambda>l. sep \<notin> set l) ls \<Longrightarrow> split_on sep (str_join sep ls) = ls"
proof (induction sep ls rule: str_join.induct)
  case (1 sep)
  then show ?case by simp
next
  case (2 sep p)
  then show ?case by (simp add: split_on_sep_free)
next
  case (3 sep p q ps)
  then show ?case by (simp add: split_on_append_sep)
qed

lemma split_on_replicate:
  "split_on sep (replicate n sep @ s) = replicate n [] @ split_on sep s"
  by (induction n) auto

lemma filter_split_token:
  assumes "sep \<notin> set t" and "t \<noteq> []" and "r = [] \<or> (\<exists>r'. r = sep # r')"
  shows "filter (\<lambda>w. w \<noteq> []) (split_on sep (t @ r)) =
         t # filter (\<lambda>w. w \<noteq> []) (split_on sep r)"
  using assms(3)
proof
  assume "r = []"
  with assms(1,2) show ?thesis by (simp add: split_on_sep_free)
next
  assume "\<exists>r'. r = sep # r'"
  then obtain r' where "r = sep # r'" by blast
  with assms(1,2) show ?thesis by (simp add: split_on_append_sep)
qed

lemma spaced_Cons:
  "spaced ((g, t) # toks) = CHR '' '' # replicate g CHR '' '' @ t @ spaced toks"
  by (simp add: spaced_def)

lemma spaced_shape: "spaced toks = [] \<or> (\<exists>r. spaced toks = CHR '' '' # r)"
  by (cases toks) (auto simp: spaced_def)

lemma key_words_spaced:
  "list_all (\<lambda>t. t \<noteq> [] \<and> CHR '' '' \<notin> set t) (map snd toks) \<Longrightarrow>
   filter (\<lambda>w. w \<noteq> []) (split_on CHR '' '' (spaced toks)) = map snd toks"
proof (induction toks)
  case Nil
  show ?case by (simp add: spaced_def)
next
  case (Cons a toks)
  obtain g t where a: "a = (g, t)" by (cases a)
  from Cons.prems a have t: "t \<noteq> []" "CHR '' '' \<notin> set t"
    and rest: "list_all (\<lambda>t. t \<noteq> [] \<and> CHR '' '' \<notin> set t) (map snd toks)" by simp_all
  have "split_on CHR '' '' (spaced (a # toks)) =
        replicate (Suc g) [] @ split_on CHR '' '' (t @ spaced toks)"
    unfolding a spaced_Cons
    using split_on_replicate [of "CHR '' ''" "Suc g" "t @ spaced toks"] by simp
  then have "filter (\<lambda>w. w \<noteq> []) (split_on CHR '' '' (spaced (a # toks))) =
        filter (\<lambda>w. w \<noteq> []) (split_on CHR '' '' (t @ spaced toks))"
    by simp
  also have "\<dots> = t # filter (\<lambda>w. w \<noteq> []) (split_on CHR '' '' (spaced toks))"
    using t spaced_shape [of toks] by (intro filter_split_token) auto
  finally show ?case using Cons.IH [OF rest] a by simp
qed

lemma lower_append: "lower (a @ b) = lower a @ lower b"
  by (simp add: lower_def)

lemma lower_char_space_bits:
  "(lower_char (Char b0 b1 b2 b3 b4 b5 b6 b7) = CHR '' '') =
   (Char b0 b1 b2 b3 b4 b5 b6 b7 = CHR '' '')"
  by (cases b0; cases b1; cases b2; cases b3; cases b4; cases b5; cases b6; cases b7;
      simp add: lower_char_def isupper_def)

lemma lower_char_space: "(lower_char c = CHR '' '') = (c = CHR '' '')"
  by (cases c) (simp only: lower_char_space_bits)

lemma lower_space_free: "CHR '' '' \<notin> set t \<Longrightarrow> CHR '' '' \<notin> set (lower t)"
proof
  assume a: "CHR '' '' \<notin> set t" and "CHR '' '' \<in> set (lower t)"
  then obtain c where "c \<in> set t" and "lower_char c = CHR '' ''"
    by (auto simp: lower_def)
  with a show False by (simp add: lower_char_space)
qed

lemma lower_spaced: "lower (spaced toks) = spaced (map (\<lambda>(g, t). (g, lower t)) toks)"
  by (induction toks) (auto simp: spaced_def lower_def lower_char_def isupper_def)

lemma lower_no_upper: "list_all (\<lambda>c. \<not> isupper c) (lower t)"
  by (simp add: lower_def list_all_iff not_isupper_lower_char)

lemma digit_char_facts:
  assumes "k < 10"
  shows "isdigit (digit_char k)" and "digit_value (digit_char k) = int k"
    and "\<not> isspace (digit_char k)" and "\<not> isupper (digit_char k)"
    and "digit_char k \<noteq> CHR ''-''" and "digit_char k \<noteq> CHR ''+''"
proof -
  from assms have "k = 0 \<or> k = 1 \<or> k = 2 \<or> k = 3 \<or> k = 4 \<or> k = 5 \<or> k = 6 \<or> k = 7
      \<or> k = 8 \<or> k = 9" by arith
  then show "isdigit (digit_char k)" and "digit_value (digit_char k) = int k"
    and "\<not> isspace (digit_char k)" and "\<not> isupper (digit_char k)"
    and "digit_char k \<noteq> CHR ''-''" and "digit_char k \<noteq> CHR ''+''"
    by (auto simp: digit_char_def isdigit_def digit_value_def isspace_def isupper_def)
qed

lemma strip_Cons_keep: "\<not> isspace c \<Longrightarrow> \<not> isspace z \<Longrightarrow> strip (c # u @ [z]) = c # u @ [z]"
  by (simp add: strip_def)

lemma strip_single: "\<not> isspace c \<Longrightarrow> strip [c] = [c]"
  by (simp add: strip_def)

lemma py_int_field2: "n < 100 \<Longrightarrow> py_int (field2 n) = Inr (int n)"
proof (cases "n < 10")
  case True
  note d = digit_char_facts [OF True]
  have "strip (field2 n) = [digit_char n]"
    using True d(3) by (simp add: field2_def strip_def isspace_def)
  then show ?thesis
    using d by (simp add: py_int_def digits_value_def)
next
  case False
  assume "n < 100"
  then have hi: "n div 10 < 10" and lo: "n mod 10 < 10" by arith+
  note dh = digit_char_facts [OF hi] and dl = digit_char_facts [OF lo]
  have "strip (field2 n) = [digit_char (n div 10), digit_char (n mod 10)]"
    using False dh(3) dl(3) strip_Cons_keep [of "digit_char (n div 10)" "digit_char (n mod 10)" "[]"]
    by (simp add: field2_def)
  moreover have "10 * int (n div 10) + int (n mod 10) = int n" by arith
  ultimately show ?thesis
    using dh dl by (simp add: py_int_def digits_value_def)
qed


lemma strip_padded:
  assumes "list_all isspace ws1" and "list_all isspace ws2"
    and "\<not> isspace c" and "\<not> isspace z"
  shows "strip (ws1 @ (c # u @ [z]) @ ws2) = c # u @ [z]"
proof -
  have "dropWhile isspace (ws1 @ (c # u @ [z]) @ ws2) = c # u @ [z] @ ws2"
    using assms(1,3) by (simp add: dropWhile_append2 list_all_iff)
  moreover have "dropWhile isspace (rev ws2 @ z # rev u @ [c]) =
      dropWhile isspace (z # rev u @ [c])"
    using assms(2) by (intro dropWhile_append2) (simp add: list_all_iff)
  moreover have "dropWhile isspace (z # rev u @ [c]) = z # rev u @ [c]"
    using assms(4) by simp
  ultimately show ?thesis by (simp add: strip_def)
qed

lemma field2_shape:
  assumes "n < 100"
  shows "\<exists>a z. field2 n = [a, z] \<and> \<not> isspace z \<and> lower (field2 n) = field2 n"
proof (cases "n < 10")
  case True
  from digit_char_facts [OF True] show ?thesis
    using True by (simp add: field2_def lower_def lower_char_def isupper_def)
next
  case False
  from assms have hi: "n div 10 < 10" and lo: "n mod 10 < 10" by arith+
  from digit_char_facts [OF hi] digit_char_facts [OF lo] show ?thesis
    using False by (simp add: field2_def lower_def lower_char_def)
qed

lemma keyword_token_space_free: "keyword_token t \<Longrightarrow> t \<noteq> [] \<and> CHR '' '' \<notin> set t"
proof -
  assume k: "keyword_token t"
  have "isspace CHR '' ''" by (simp add: isspace_def)
  with k show ?thesis by (auto simp: keyword_token_def list_all_iff)
qed

lemma spaced_ends:
  assumes "list_all keyword_token (map snd toks)" and "toks \<noteq> []"
  shows "\<exists>u z. spaced toks = u @ [z] \<and> \<not> isspace z"
proof -
  from assms(2) obtain toks' g t where toks: "toks = toks' @ [(g, t)]"
    by (cases toks rule: rev_cases) auto
  with assms(1) have k: "keyword_token t" by simp
  then obtain t' z where t: "t = t' @ [z]"
    by (cases t rule: rev_cases) (auto simp: keyword_token_def)
  with k have z: "\<not> isspace z" by (simp add: keyword_token_def)
  have "spaced toks = (spaced toks' @ replicate (Suc g) CHR '' '' @ t') @ [z]"
    by (simp add: toks t spaced_def)
  with z show ?thesis by blast
qed

lemma strip_table_line:
  assumes "s < 100" and "list_all keyword_token (map snd toks)"
    and "list_all isspace ws1" and "list_all isspace ws2"
  shows "strip (ws1 @ table_line l s toks @ ws2) = table_line l s toks"
proof -
  have L: "\<not> isspace CHR ''L''" by (simp add: isspace_def)
  have "\<exists>u z. field2 l @ '' S'' @ field2 s @ spaced toks = u @ [z] \<and> \<not> isspace z"
  proof (cases "toks = []")
    case True
    from field2_shape [OF assms(1)] obtain a z where "field2 s = [a, z]" and "\<not> isspace z"
      by blast
    then have "field2 l @ '' S'' @ field2 s @ spaced toks = (field2 l @ '' S'' @ [a]) @ [z]"
      using True by (simp add: spaced_def)
    with \<open>\<not> isspace z\<close> show ?thesis by blast
  next
    case False
    from spaced_ends [OF assms(2) False] obtain u z where "spaced toks = u @ [z]"
      and z: "\<not> isspace z" by blast
    then have "field2 l @ '' S'' @ field2 s @ spaced toks = (field2 l @ '' S'' @ field2 s @ u) @ [z]"
      by simp
    with z show ?thesis by blast
  qed
  then obtain u z where e: "field2 l @ '' S'' @ field2 s @ spaced toks = u @ [z]"
    and z: "\<not> isspace z" by blast
  have "table_line l s toks = CHR ''L'' # u @ [z]"
    using e by (simp add: table_line_def)
  with strip_padded [OF assms(3,4) L z, of u] show ?thesis by simp
qed

lemma line_entry_table_line:
  assumes "l < 100" and "s < 100" and "list_all keyword_token (map snd toks)"
    and "list_all isspace ws1" and "list_all isspace ws2"
  shows "line_entry (ws1 @ table_line l s toks @ ws2) =
         Some (Inr ((int l, int s), map (\<lambda>(g, t). word_alternatives (lower t)) toks))"
proof -
  from field2_shape [OF assms(1)] obtain a b
    where fl: "field2 l = [a, b]" and ll: "lower (field2 l) = field2 l" by blast
  from field2_shape [OF assms(2)] obtain c d
    where fs: "field2 s = [c, d]" and ls: "lower (field2 s) = field2 s" by blast
  let ?toks = "map (\<lambda>(g, t). (g, lower t)) toks"
  have line: "lower (strip (ws1 @ table_line l s toks @ ws2)) =
      CHR ''l'' # a # b # CHR '' '' # CHR ''s'' # c # d # spaced ?toks"
  proof -
    have "lower (table_line l s toks) =
        lower ''L'' @ lower (field2 l) @ lower '' S'' @ lower (field2 s) @ lower (spaced toks)"
      by (simp only: table_line_def lower_append)
    moreover have "lower ''L'' = ''l''" and "lower '' S'' = '' s''"
      by (simp_all add: lower_def lower_char_def isupper_def)
    ultimately show ?thesis
      using ll ls fl fs by (simp add: strip_table_line [OF assms(2-5)] lower_spaced)
  qed
  have "list_all (\<lambda>t. t \<noteq> [] \<and> CHR '' '' \<notin> set t) (map snd ?toks)"
    unfolding list_all_iff
  proof
    fix t' assume "t' \<in> set (map snd ?toks)"
    then obtain g t where m: "(g, t) \<in> set toks" and t': "t' = lower t" by auto
    from m assms(3) have "keyword_token t" by (auto simp: list_all_iff)
    from keyword_token_space_free [OF this] lower_space_free [of t]
    show "t' \<noteq> [] \<and> CHR '' '' \<notin> set t'" by (simp add: t' lower_def)
  qed
  from key_words_spaced [OF this]
  have kw: "key_words_of (CHR ''l'' # a # b # CHR '' '' # CHR ''s'' # c # d # spaced ?toks) =
      map snd ?toks"
    by (simp add: key_words_of_def)
  have pl: "py_int [a, b] = Inr (int l)" and ps: "py_int [c, d] = Inr (int s)"
    using py_int_field2 [OF assms(1)] py_int_field2 [OF assms(2)] fl fs by simp_all
  have "map word_alternatives (map snd ?toks) =
      map (\<lambda>(g, t). word_alternatives (lower t)) toks"
    by (induction toks) auto
  then show ?thesis
    unfolding line_entry_def line
    using pl ps kw by (simp add: Let_def)
qed




lemma ingest_line_Inr:
  "line_entry l = Some (Inr (k, e)) \<Longrightarrow>
   ingest_line l st =
     Inr (AList.update k e (fst st),
          if length e \<noteq> 5 then snd st @ [(warning_text (fst k) (snd k), e)] else snd st)"
  by (cases k) (simp add: ingest_line_def)

lemma ingest_loop_append:
  "ingest_loop (xs @ ys) st =
     (case ingest_loop xs st of Inl e \<Rightarrow> Inl e | Inr st' \<Rightarrow> ingest_loop ys st')"
  by (induction xs arbitrary: st) (auto split: sum.splits)





lemma split_on_subset: "p \<in> set (split_on sep s) \<Longrightarrow> set p \<subseteq> set s"
proof (induction s arbitrary: p)
  case Nil
  then show ?case by simp
next
  case (Cons c cs)
  obtain q qs where qs: "split_on sep cs = q # qs"
    using split_on_not_Nil [of sep cs] by (cases "split_on sep cs") auto
  have q: "set q \<subseteq> set cs" and rest: "\<And>r. r \<in> set qs \<Longrightarrow> set r \<subseteq> set cs"
    using Cons.IH qs by auto
  show ?case
  proof (cases "c = sep")
    case True
    with Cons.prems qs q rest show ?thesis by auto
  next
    case False
    with Cons.prems qs q rest show ?thesis by auto
  qed
qed

lemma word_alternatives_lower:
  "list_all (list_all (\<lambda>c. \<not> isupper c)) (word_alternatives (lower t))"
proof -
  have low: "\<And>c. c \<in> set (lower t) \<Longrightarrow> \<not> isupper c"
    by (auto simp: lower_def not_isupper_lower_char)
  have "\<And>p. p \<in> set (word_alternatives (lower t)) \<Longrightarrow> set p \<subseteq> set (lower t)"
    using split_on_subset [of _ "CHR ''/''" "lower t"]
    by (auto simp: word_alternatives_def split: if_splits)
  with low show ?thesis by (auto simp: list_all_iff)
qed

lemmas table_eval =
  line_entry_def ingest_line_def ingest_spin_keyword_lists_def strip_def isspace_def lower_def
  lower_char_def isupper_def py_int_def digits_value_def isdigit_def digit_value_def
  key_words_of_def word_alternatives_def warning_text_def str_int_def Let_def




text \<open>
  C2 as the claim states it fails: keyword tokens separated by a tab are separated by
  white space, but the line is split at the space character only, so the two tokens
  count as one and the entry has four keyword entries.
\<close>

theorem ingest_tab_separated_counterexample:
  "ingest_spin_keyword_lists [''L 0 S 0  white'' @ [CHR 0x09] @ ''silk jacket any shoes''] =
   Inr ([((0, 0), [[''white'' @ [CHR 0x09] @ ''silk''], [''jacket''], [''any''], [''shoes'']])],
        [(''Have too many words in L0 S0:'',
          [[''white'' @ [CHR 0x09] @ ''silk''], [''jacket''], [''any''], [''shoes'']])])"
  by (simp add: table_eval)

text \<open>
  C2, amended: for a line in the form of the table (\<open>L\<close>, the list number in two
  columns, \<open>S\<close>, the sentence number in two columns) followed by exactly five keyword
  tokens, each after a run of one or more space characters, with any white space around
  the line, the table maps the key of the line to exactly five keyword entries: the
  alternatives of the five tokens in lower case, in order. No spelling holds a capital,
  and the number of spaces between the tokens makes no difference.
\<close>

theorem ingest_five_tokens:
  assumes "l < 100" and "s < 100"
    and "list_all keyword_token (map snd toks)" and "length toks = 5"
    and "list_all isspace ws1" and "list_all isspace ws2"
    and "ingest_spin_keyword_lists before = Inr (d, w)"
  shows "\<exists>d'. ingest_spin_keyword_lists (before @ [ws1 @ table_line l s toks @ ws2]) =
               Inr (d', w)
           \<and> map_of d' (int l, int s) =
               Some (map (\<lambda>(g, t). word_alternatives (lower t)) toks)
           \<and> length (map (\<lambda>(g, t). word_alternatives (lower t)) toks) = 5
           \<and> list_all (list_all (list_all (\<lambda>c. \<not> isupper c)))
               (map (\<lambda>(g, t). word_alternatives (lower t)) toks)"
proof -
  let ?e = "map (\<lambda>(g, t). word_alternatives (lower t)) toks"
  from line_entry_table_line [OF assms(1,2,3,5,6)]
  have le: "line_entry (ws1 @ table_line l s toks @ ws2) = Some (Inr ((int l, int s), ?e))" .
  have "ingest_spin_keyword_lists (before @ [ws1 @ table_line l s toks @ ws2]) =
      Inr (AList.update (int l, int s) ?e d, w)"
    using assms(4,7)
    by (simp add: ingest_spin_keyword_lists_def ingest_loop_append ingest_line_Inr [OF le])
  moreover have "map_of (AList.update (int l, int s) ?e d) (int l, int s) = Some ?e"
    by (simp add: update_conv')
  moreover have "length ?e = 5" using assms(4) by simp
  moreover have "list_all (list_all (list_all (\<lambda>c. \<not> isupper c))) ?e"
    using word_alternatives_lower by (auto simp: list_all_iff)
  ultimately show ?thesis by blast
qed

theorem ingest_five_tokens_witness:
  "\<exists>d'. ingest_spin_keyword_lists
           ['' L10 S 2  Bottles hold   four/FOR kinds rum ''] = Inr (d', [])
     \<and> map_of d' (10, 2) = Some [[''bottles''], [''hold''], [''four'', ''for''], [''kinds''], [''rum'']]"
proof -
  let ?toks = "[(1, ''Bottles''), (0, ''hold''), (2, ''four/FOR''), (0, ''kinds''), (0, ''rum'')]"
  have h: "(10 :: nat) < 100" "(2 :: nat) < 100"
    "list_all keyword_token (map snd ?toks)" "length ?toks = 5"
    "list_all isspace '' ''" "list_all isspace '' ''"
    "ingest_spin_keyword_lists [] = Inr ([], [])"
    by (simp_all add: keyword_token_def isspace_def ingest_spin_keyword_lists_def)
  have line: "'' '' @ table_line 10 2 ?toks @ '' '' = '' L10 S 2  Bottles hold   four/FOR kinds rum ''"
    by (simp add: table_line_def field2_def digit_char_def spaced_def replicate_Suc
        numeral_2_eq_2)
  have e: "map (\<lambda>(g, t). word_alternatives (lower t)) ?toks =
      [[''bottles''], [''hold''], [''four'', ''for''], [''kinds''], [''rum'']]"
    by (simp add: word_alternatives_def lower_def lower_char_def isupper_def)
  note T = ingest_five_tokens [OF h, unfolded line e]
  from T show ?thesis by auto
qed





lemma key_word_lines_no_newline: "list_all (\<lambda>l. CHR 0x0A \<notin> set l) key_word_lines"
  unfolding key_word_lines_def by simp

lemma key_word_list_eq: "key_word_list = key_word_lines"
  unfolding key_word_list_def key_word_text_def
proof (rule split_on_str_join)
  show "key_word_lines \<noteq> []" by (simp add: key_word_lines_def)
  show "list_all (\<lambda>l. CHR 0x0A \<notin> set l) key_word_lines" by (rule key_word_lines_no_newline)
qed

lemma embedded_table_eval:
  "(case ingest_spin_keyword_lists key_word_lines of
      Inl e \<Rightarrow> None
    | Inr (d, w) \<Rightarrow> Some (map fst d, map (length \<circ> snd) d, w)) =
   Some ([(0, 0), (0, 1), (0, 2), (0, 3), (0, 4), (0, 5),
          (1, 0), (1, 1), (1, 2), (1, 3), (1, 4), (1, 5),
          (2, 0), (2, 1), (2, 2), (2, 3), (2, 4), (2, 5),
          (3, 0), (3, 1), (3, 2), (3, 3), (3, 4), (3, 5),
          (4, 0), (4, 1), (4, 2), (4, 3), (4, 4), (4, 5),
          (5, 0), (5, 1), (5, 2), (5, 3), (5, 4), (5, 5),
          (6, 0), (6, 1), (6, 2), (6, 3), (6, 4), (6, 5),
          (7, 0), (7, 1), (7, 2), (7, 3), (7, 4), (7, 5),
          (8, 0), (8, 1), (8, 2), (8, 3), (8, 4), (8, 5),
          (9, 0), (9, 1), (9, 2), (9, 3), (9, 4), (9, 5),
          (10, 0), (10, 1), (10, 2), (10, 3), (10, 4), (10, 5),
          (11, 0), (11, 1), (11, 2), (11, 3), (11, 4), (11, 5)],
         replicate 72 5, [])"
  by code_simp

text \<open>
  C1: the embedded table parses without an exception and without a warning to 72
  entries under 72 distinct keys, the pairs of a list number from 0 to 11 and a sentence
  number from 0 to 5, each once, in the order of the table; every entry has five
  keyword entries.
\<close>

theorem ingest_embedded_table:
  "\<exists>d. ingest_spin_keyword_lists key_word_list = Inr (d, [])
     \<and> length d = 72
     \<and> distinct (map fst d)
     \<and> map fst d =
         concat (map (\<lambda>l. map (\<lambda>s. (l, s)) [0, 1, 2, 3, 4, 5])
                   [0, 1, 2, 3, 4, 5, 6, 7, 8, 9, 10, 11])
     \<and> list_all (\<lambda>(l, s). 0 \<le> l \<and> l \<le> 11 \<and> 0 \<le> s \<and> s \<le> 5) (map fst d)
     \<and> list_all (\<lambda>e. length e = 5) (map snd d)"
proof -
  from embedded_table_eval obtain d
    where run: "ingest_spin_keyword_lists key_word_lines = Inr (d, [])"
      and keys: "map fst d =
         concat (map (\<lambda>l. map (\<lambda>s. (l, s)) [0, 1, 2, 3, 4, 5])
                   [0, 1, 2, 3, 4, 5, 6, 7, 8, 9, 10, 11])"
      and lens: "map (length \<circ> snd) d = replicate 72 5"
    by (auto split: sum.splits prod.splits)
  have "length (map fst d) = 72" unfolding keys by simp
  then have n: "length d = 72" by simp
  have dist: "distinct (map fst d)" unfolding keys by simp
  have range: "list_all (\<lambda>(l, s). 0 \<le> l \<and> l \<le> 11 \<and> 0 \<le> s \<and> s \<le> 5) (map fst d)"
    unfolding keys by simp
  have "\<forall>x \<in> set (map (length \<circ> snd) d). x = 5" unfolding lens by simp
  then have five: "list_all (\<lambda>e. length e = 5) (map snd d)"
    by (simp add: list_all_iff)
  from run keys n dist range five show ?thesis
    unfolding key_word_list_eq by blast
qed

end
